theory Spec2Isabelle
  imports Complex_Main "HOL-Library.Log_Nat" "HOL-Library.Multiset" "HOL-Library.AList"
begin

section \<open>Data model (types.ts)\<close>

text \<open>
  A JavaScript \<open>number\<close> that only ever holds an entry number or a count is an integer;
  one that goes through \<open>/\<close>, \<open>Math.random\<close> or the physics is a real (doubles are
  idealised as reals throughout: rounding is not modelled).
\<close>

record Player =
  id_player :: string
  name :: string
  number :: int

record Fixture =
  id_fixture :: string
  home :: Player
  away :: "Player option"

section \<open>DrawStage: component state\<close>

text \<open>The six \<open>useState\<close> cells of \<open>DrawStage\<close> (lines 13 to 18).\<close>

record draw_state =
  remainingPlayers :: "Player list"
  fixtures :: "Fixture list"
  currentHome :: "Player option"
  lastDrawnNumber :: "int option"
  isDrawing :: bool
  drawHistory :: "string list"

definition init_state :: "Player list \<Rightarrow> draw_state" where
  "init_state initialPlayers =
     \<lparr>remainingPlayers = initialPlayers, fixtures = [], currentHome = None,
      lastDrawnNumber = None, isDrawing = False, drawHistory = []\<rparr>"

section \<open>Bracket structure (the \<open>useMemo\<close> of lines 22 to 28)\<close>

text \<open>
  \<open>Math.pow(2, Math.ceil(Math.log2(totalPlayers)))\<close>. The library constant
  \<^const>\<open>ceillog2\<close> is \<open>nat \<lceil>log 2 (real n)\<rceil>\<close> for \<open>n > 0\<close> and comes with code
  equations; the memo only reaches this line with \<open>totalPlayers \<ge> 2\<close>.
\<close>

definition nextPowerOf2 :: "nat \<Rightarrow> real" where
  "nextPowerOf2 totalPlayers = 2 ^ ceillog2 totalPlayers"

definition byesNeeded :: "nat \<Rightarrow> real" where
  "byesNeeded totalPlayers = nextPowerOf2 totalPlayers - real totalPlayers"

definition matchesNeeded :: "nat \<Rightarrow> real" where
  "matchesNeeded totalPlayers =
     (if totalPlayers < 2 then 0
      else (real totalPlayers - byesNeeded totalPlayers) / 2)"

section \<open>drawPlayer (lines 30 to 76)\<close>

datatype error = TypeError

definition matchesSoFar :: "draw_state \<Rightarrow> nat" where
  "matchesSoFar s = length (filter (\<lambda>f. away f \<noteq> None) (fixtures s))"

text \<open>
  \<open>rnd\<close> is the value returned by \<open>Math.random()\<close> (a real in \<open>[0, 1)\<close>), \<open>uuid\<close> the
  value returned by \<open>crypto.randomUUID()\<close>. Neither is consulted when the pool is empty.
  An index outside the array (impossible for \<open>rnd\<close> in \<open>[0, 1)\<close>) would make \<open>drawn\<close>
  undefined and \<open>drawn.number\<close> throw.
\<close>

definition drawPlayer :: "Player list \<Rightarrow> real \<Rightarrow> string \<Rightarrow> draw_state \<Rightarrow> error + draw_state" where
  "drawPlayer initialPlayers rnd uuid s =
     (if length (remainingPlayers s) = 0 then Inr (s\<lparr>isDrawing := False\<rparr>)
      else
        let randomIndex = \<lfloor>rnd * real (length (remainingPlayers s))\<rfloor> in
        if randomIndex < 0 \<or> int (length (remainingPlayers s)) \<le> randomIndex then Inl TypeError
        else
          let drawn = remainingPlayers s ! nat randomIndex;
              newRemaining = take (nat randomIndex) (remainingPlayers s)
                             @ drop (Suc (nat randomIndex)) (remainingPlayers s);
              s1 = s\<lparr>remainingPlayers := newRemaining, lastDrawnNumber := Some (number drawn)\<rparr>
          in
            if real (matchesSoFar s) < matchesNeeded (length initialPlayers) then
              (case currentHome s of
                 Some h \<Rightarrow>
                   Inr (s1\<lparr>fixtures := \<lparr>id_fixture = uuid, home = h, away = Some drawn\<rparr> # fixtures s,
                           drawHistory := (name drawn @ '' drawn vs '' @ name h) # drawHistory s,
                           currentHome := None\<rparr>)
               | None \<Rightarrow>
                   Inr (s1\<lparr>currentHome := Some drawn,
                           drawHistory := (name drawn @ '' drawn as Home'') # drawHistory s\<rparr>))
            else
              Inr (s1\<lparr>fixtures := \<lparr>id_fixture = uuid, home = drawn, away = None\<rparr> # fixtures s,
                      drawHistory := (name drawn @ '' receives a BYE!'') # drawHistory s\<rparr>))"

text \<open>A sequence of \<open>drawPlayer\<close> calls, each with its own random values.\<close>

fun draws :: "Player list \<Rightarrow> (real \<times> string) list \<Rightarrow> draw_state \<Rightarrow> error + draw_state" where
  "draws initialPlayers [] s = Inr s"
| "draws initialPlayers ((rnd, uuid) # cs) s =
     (case drawPlayer initialPlayers rnd uuid s of
        Inl e \<Rightarrow> Inl e
      | Inr s' \<Rightarrow> draws initialPlayers cs s')"

text \<open>\<open>Math.random()\<close> returns a value in \<open>[0, 1)\<close>.\<close>

definition valid_random :: "real \<Rightarrow> bool" where
  "valid_random rnd = (0 \<le> rnd \<and> rnd < 1)"

definition valid_randoms :: "(real \<times> string) list \<Rightarrow> bool" where
  "valid_randoms cs = list_all (\<lambda>c. valid_random (fst c)) cs"

subsection \<open>Observations of the draw state\<close>

definition byesSoFar :: "draw_state \<Rightarrow> nat" where
  "byesSoFar s = length (filter (\<lambda>f. away f = None) (fixtures s))"

definition pendingCount :: "draw_state \<Rightarrow> nat" where
  "pendingCount s = (case currentHome s of None \<Rightarrow> 0 | Some h \<Rightarrow> 1)"

definition entrantTotal :: "draw_state \<Rightarrow> nat" where
  "entrantTotal s =
     length (remainingPlayers s) + pendingCount s + 2 * matchesSoFar s + byesSoFar s"

definition fixturePlayers :: "Fixture \<Rightarrow> Player list" where
  "fixturePlayers f = home f # (case away f of None \<Rightarrow> [] | Some a \<Rightarrow> [a])"

definition placedPlayers :: "draw_state \<Rightarrow> Player list" where
  "placedPlayers s = concat (map fixturePlayers (fixtures s))"

definition pendingPlayers :: "draw_state \<Rightarrow> Player list" where
  "pendingPlayers s = (case currentHome s of None \<Rightarrow> [] | Some h \<Rightarrow> [h])"

definition allPlayers :: "draw_state \<Rightarrow> Player list" where
  "allPlayers s = remainingPlayers s @ pendingPlayers s @ placedPlayers s"

definition bracket_inv :: "Player list \<Rightarrow> draw_state \<Rightarrow> bool" where
  "bracket_inv initialPlayers s =
     (entrantTotal s = length initialPlayers
      \<and> real (matchesSoFar s) \<le> matchesNeeded (length initialPlayers)
      \<and> (real (matchesSoFar s) < matchesNeeded (length initialPlayers) \<longrightarrow> byesSoFar s = 0)
      \<and> (currentHome s \<noteq> None \<longrightarrow> real (matchesSoFar s) < matchesNeeded (length initialPlayers)))"

subsection \<open>Sample data\<close>

definition entrant :: "int \<Rightarrow> string \<Rightarrow> Player" where
  "entrant k nm = \<lparr>id_player = ''id-'' @ nm, name = nm, number = k\<rparr>"

definition five :: "Player list" where
  "five = [entrant 1 ''A'', entrant 2 ''B'', entrant 3 ''C'', entrant 4 ''D'', entrant 5 ''E'']"

definition four :: "Player list" where
  "four = [entrant 1 ''A'', entrant 2 ''B'', entrant 3 ''C'', entrant 4 ''D'']"

text \<open>Random values that draw C, A, E, B, D from \<^const>\<open>five\<close>, in this order.\<close>

definition order_CAEBD :: "(real \<times> string) list" where
  "order_CAEBD = [(2/5, ''u1''), (0, ''u2''), (2/3, ''u3''), (0, ''u4''), (0, ''u5'')]"

text \<open>
  States of the stage during that draw: after C (pending home), after C and A (the one
  match formed), and at the end, the draw having been started with a click.
\<close>

definition five_pending :: draw_state where
  "five_pending =
     \<lparr>remainingPlayers = [entrant 1 ''A'', entrant 2 ''B'', entrant 4 ''D'', entrant 5 ''E''],
      fixtures = [], currentHome = Some (entrant 3 ''C''), lastDrawnNumber = Some 3,
      isDrawing = False, drawHistory = [''C drawn as Home'']\<rparr>"

definition five_matched :: draw_state where
  "five_matched =
     \<lparr>remainingPlayers = [entrant 2 ''B'', entrant 4 ''D'', entrant 5 ''E''],
      fixtures = [\<lparr>id_fixture = ''u2'', home = entrant 3 ''C'', away = Some (entrant 1 ''A'')\<rparr>],
      currentHome = None, lastDrawnNumber = Some 1,
      isDrawing = False, drawHistory = [''A drawn vs C'', ''C drawn as Home'']\<rparr>"

definition five_done :: draw_state where
  "five_done =
     \<lparr>remainingPlayers = [],
      fixtures = [\<lparr>id_fixture = ''u5'', home = entrant 4 ''D'', away = None\<rparr>,
                  \<lparr>id_fixture = ''u4'', home = entrant 2 ''B'', away = None\<rparr>,
                  \<lparr>id_fixture = ''u3'', home = entrant 5 ''E'', away = None\<rparr>,
                  \<lparr>id_fixture = ''u2'', home = entrant 3 ''C'', away = Some (entrant 1 ''A'')\<rparr>],
      currentHome = None, lastDrawnNumber = Some 4, isDrawing = True,
      drawHistory = [''D receives a BYE!'', ''B receives a BYE!'', ''E receives a BYE!'',
                     ''A drawn vs C'', ''C drawn as Home'']\<rparr>"

section \<open>Pacing timer and start/pause control (lines 78 to 93)\<close>

text \<open>
  The effect of lines 78 to 86, run after a render: the first component says whether an
  interval is armed afterwards.
\<close>

definition timerEffect :: "draw_state \<Rightarrow> bool \<times> draw_state" where
  "timerEffect s =
     (if isDrawing s \<and> length (remainingPlayers s) > 0 then (True, s)
      else if length (remainingPlayers s) = 0 then (False, s\<lparr>isDrawing := False\<rparr>)
      else (False, s))"

definition toggleDraw :: "draw_state \<Rightarrow> draw_state" where
  "toggleDraw s =
     (if length (remainingPlayers s) > 0 then s\<lparr>isDrawing := \<not> isDrawing s\<rparr> else s)"

text \<open>Everything that writes the state of the stage: a timer tick, a click, the effect.\<close>

datatype event = Tick real string | Toggle | Effect

fun step :: "Player list \<Rightarrow> event \<Rightarrow> draw_state \<Rightarrow> error + draw_state" where
  "step initialPlayers (Tick rnd uuid) s = drawPlayer initialPlayers rnd uuid s"
| "step initialPlayers Toggle s = Inr (toggleDraw s)"
| "step initialPlayers Effect s = Inr (snd (timerEffect s))"

fun run :: "Player list \<Rightarrow> event list \<Rightarrow> draw_state \<Rightarrow> error + draw_state" where
  "run initialPlayers [] s = Inr s"
| "run initialPlayers (e # es) s =
     (case step initialPlayers e s of
        Inl err \<Rightarrow> Inl err
      | Inr s' \<Rightarrow> run initialPlayers es s')"

section \<open>LotteryMachine: the simulation's state\<close>

text \<open>
  The component keeps references to objects of the physics library and mutates them in
  place. Bodies are therefore addresses into a store; the world's body list and the
  number-to-body \<open>Map\<close> hold addresses of the same bodies. The \<open>Map\<close> keeps insertion
  order, so it is an association list with distinct keys. Of a body, only the fields the
  component reads or writes are kept.
\<close>

record Vector =
  vx :: real
  vy :: real

record Body =
  position :: Vector
  mass :: real
  force :: Vector
  torque :: real
  angularVelocity :: real

record Engine =
  gravity_y :: real
  world_bodies :: "nat list"

record machine_state =
  engineRef :: "Engine option"
  bodiesRef :: "(int \<times> nat) list"
  isDrawingRef :: bool
  store :: "nat \<Rightarrow> Body"

subsection \<open>Library operations the component calls\<close>

text \<open>
  \<open>Matter.World.remove(world, body)\<close>: the body's first occurrence leaves the world's
  body list; a body that is not there leaves the list as it is.
\<close>

definition World_remove :: "nat list \<Rightarrow> nat \<Rightarrow> nat list" where
  "World_remove bodies body = remove1 body bodies"

text \<open>
  \<open>Matter.Body.applyForce(body, position, force)\<close> adds the force to the body's force
  accumulator, and to its torque the cross product of the offset of \<open>position\<close> from the
  body's position with the force.
\<close>

definition applyForce :: "Body \<Rightarrow> Vector \<Rightarrow> Vector \<Rightarrow> Body" where
  "applyForce body pos f =
     body\<lparr>force := \<lparr>vx = vx (force body) + vx f, vy = vy (force body) + vy f\<rparr>,
          torque := torque body
                    + ((vx pos - vx (position body)) * vy f - (vy pos - vy (position body)) * vx f)\<rparr>"

definition setAngularVelocity :: "Body \<Rightarrow> real \<Rightarrow> Body" where
  "setAngularVelocity body velocity = body\<lparr>angularVelocity := velocity\<rparr>"

subsection \<open>Gravity toggle (lines 23 to 30)\<close>

definition syncDrawing :: "bool \<Rightarrow> machine_state \<Rightarrow> machine_state" where
  "syncDrawing isDrawing_prop m =
     (let m1 = m\<lparr>isDrawingRef := isDrawing_prop\<rparr> in
      case engineRef m1 of
        None \<Rightarrow> m1
      | Some engine \<Rightarrow>
          m1\<lparr>engineRef := Some (engine\<lparr>gravity_y := (if isDrawing_prop then 0 else 1)\<rparr>)\<rparr>)"

subsection \<open>The \<open>beforeUpdate\<close> handler (lines 81 to 117)\<close>

text \<open>
  The callback of \<open>bodies.forEach\<close>. \<open>rng\<close> is the sequence of values \<open>Math.random()\<close>
  returns during the handler and \<open>c\<close> the number of values consumed so far; the result
  is the body after the callback and the new count.
\<close>

definition attract :: "real \<Rightarrow> real \<Rightarrow> (nat \<Rightarrow> real) \<Rightarrow> nat \<Rightarrow> Body \<Rightarrow> Body \<times> nat" where
  "attract width height rng c body =
     (let centerX = width / 2;
          centerY = height / 2;
          dx = centerX - vx (position body);
          dy = centerY - vy (position body);
          distanceSq = dx * dx + dy * dy;
          distance = sqrt distanceSq
      in if distance < 1 then (body, c)
         else
           let strength = 0.00002 * mass body;
               turbulence = 0.015 * mass body;
               b1 = applyForce body (position body)
                      \<lparr>vx = (dx * strength) + (rng c - 0.5) * turbulence,
                       vy = (dy * strength) + (rng (c + 1) - 0.5) * turbulence\<rparr>
           in if rng (c + 2) > 0.9
              then (setAngularVelocity b1 ((rng (c + 3) - 0.5) * 0.1), c + 4)
              else (b1, c + 3))"

fun forEach_attract ::
  "real \<Rightarrow> real \<Rightarrow> (nat \<Rightarrow> real) \<Rightarrow> nat list \<Rightarrow> nat \<Rightarrow> (nat \<Rightarrow> Body) \<Rightarrow> (nat \<Rightarrow> Body)" where
  "forEach_attract width height rng [] c st = st"
| "forEach_attract width height rng (b # bs) c st =
     (let (body', c') = attract width height rng c (st b)
      in forEach_attract width height rng bs c' (st(b := body')))"

definition beforeUpdate :: "real \<Rightarrow> real \<Rightarrow> (nat \<Rightarrow> real) \<Rightarrow> machine_state \<Rightarrow> machine_state" where
  "beforeUpdate width height rng m =
     (if \<not> isDrawingRef m then m
      else m\<lparr>store := forEach_attract width height rng (map snd (bodiesRef m)) 0 (store m)\<rparr>)"

subsection \<open>Ejection (lines 200 to 208)\<close>

definition eject :: "int option \<Rightarrow> machine_state \<Rightarrow> machine_state" where
  "eject drawnNumber m =
     (case drawnNumber of
        None \<Rightarrow> m
      | Some k \<Rightarrow>
          (case engineRef m of
             None \<Rightarrow> m
           | Some engine \<Rightarrow>
               (case map_of (bodiesRef m) k of
                  None \<Rightarrow> m
                | Some body \<Rightarrow>
                    m\<lparr>engineRef := Some (engine\<lparr>world_bodies := World_remove (world_bodies engine) body\<rparr>),
                      bodiesRef := AList.delete k (bodiesRef m)\<rparr>)))"

subsection \<open>Sample machine\<close>

text \<open>
  A 600 by 500 arena with four walls (bodies 0 to 3) and three balls: number 1 far from
  the centre, number 2 within distance 1 of it, number 3 below it.
\<close>

definition ball :: "real \<Rightarrow> real \<Rightarrow> Body" where
  "ball px py = \<lparr>position = \<lparr>vx = px, vy = py\<rparr>, mass = 72, force = \<lparr>vx = 0, vy = 0\<rparr>,
                  torque = 0, angularVelocity = 0\<rparr>"

definition sample_machine :: machine_state where
  "sample_machine =
     \<lparr>engineRef = Some \<lparr>gravity_y = 1, world_bodies = [0, 1, 2, 3, 4, 5, 6]\<rparr>,
      bodiesRef = [(1, 4), (2, 5), (3, 6)],
      isDrawingRef = False,
      store = (\<lambda>b. if b = 4 then ball 100 250 else if b = 5 then ball 300 (501/2)
                    else if b = 6 then ball 300 450 else ball 0 0)\<rparr>"

section \<open>The bracket computation\<close>

lemma nextPowerOf2_powr:
  assumes "1 \<le> n"
  shows "nextPowerOf2 n = 2 powr real_of_int \<lceil>log 2 (real n)\<rceil>"
proof -
  have "0 \<le> log 2 (real n)" using assms by simp
  then have nn: "0 \<le> \<lceil>log 2 (real n)\<rceil>" by linarith
  have "nextPowerOf2 n = 2 ^ nat \<lceil>log 2 (real n)\<rceil>"
    using assms by (simp add: nextPowerOf2_def ceillog2_def)
  also have "\<dots> = 2 powr real (nat \<lceil>log 2 (real n)\<rceil>)"
    by (simp add: powr_realpow)
  also have "real (nat \<lceil>log 2 (real n)\<rceil>) = real_of_int \<lceil>log 2 (real n)\<rceil>"
    using nn by simp
  finally show ?thesis .
qed

lemma nextPowerOf2_bounds:
  assumes "1 \<le> n"
  shows "real n \<le> nextPowerOf2 n" and "nextPowerOf2 n < 2 * real n"
proof -
  have "n \<le> 2 ^ ceillog2 n" by (rule le_two_power_ceillog2)
  then have "real n \<le> real (2 ^ ceillog2 n)" by (rule of_nat_mono)
  then show "real n \<le> nextPowerOf2 n" by (simp add: nextPowerOf2_def)
  have "2 ^ ceillog2 n < 2 * n" using assms by (intro two_power_ceillog2_gt) simp
  then have "real (2 ^ ceillog2 n) < real (2 * n)" by (simp only: of_nat_less_iff)
  then show "nextPowerOf2 n < 2 * real n" by (simp add: nextPowerOf2_def)
qed

lemma matchesNeeded_nat:
  assumes "2 \<le> n"
  shows "matchesNeeded n = real (n - 2 ^ (ceillog2 n - 1))"
    and "2 ^ (ceillog2 n - 1) < n"
proof -
  have pos: "0 < ceillog2 n"
    using assms ceillog2_ge_iff[of n 1] by simp
  then have split: "(2::nat) ^ ceillog2 n = 2 * 2 ^ (ceillog2 n - 1)"
    by (cases "ceillog2 n") simp_all
  have "2 ^ ceillog2 n < 2 * n" using assms by (intro two_power_ceillog2_gt) simp
  with split show lt: "2 ^ (ceillog2 n - 1) < n" by simp
  have "nextPowerOf2 n = 2 * real (2 ^ (ceillog2 n - 1))"
    unfolding nextPowerOf2_def using split
    by (metis of_nat_mult of_nat_numeral of_nat_power)
  then have "matchesNeeded n = real n - real (2 ^ (ceillog2 n - 1))"
    using assms by (simp add: matchesNeeded_def byesNeeded_def)
  also have "\<dots> = real (n - 2 ^ (ceillog2 n - 1))"
    using lt by (simp add: of_nat_diff)
  finally show "matchesNeeded n = real (n - 2 ^ (ceillog2 n - 1))" .
qed

lemma matchesNeeded_integral: "\<exists>m::nat. matchesNeeded n = real m"
proof (cases "2 \<le> n")
  case True
  then show ?thesis using matchesNeeded_nat(1) by blast
next
  case False
  then have "matchesNeeded n = real 0" by (simp add: matchesNeeded_def)
  then show ?thesis by blast
qed

text \<open>
  C3. With fewer than two entrants \<open>matchesNeeded\<close> is 0. From two entrants on it is
  \<open>(N - (nextPow2 N - N)) / 2\<close> with \<open>nextPow2 N = 2^ceil(log2 N)\<close>, it is a
  non-negative integer, and \<open>2 * matchesNeeded + byesNeeded = N\<close>.
\<close>

theorem matchesNeeded_spec:
  "(n < 2 \<longrightarrow> matchesNeeded n = 0) \<and>
   (2 \<le> n \<longrightarrow>
      byesNeeded n = 2 powr real_of_int \<lceil>log 2 (real n)\<rceil> - real n \<and>
      matchesNeeded n = (real n - (2 powr real_of_int \<lceil>log 2 (real n)\<rceil> - real n)) / 2 \<and>
      (\<exists>m::nat. matchesNeeded n = real m) \<and>
      2 * matchesNeeded n + byesNeeded n = real n)"
proof (intro conjI impI)
  assume "n < 2"
  then show "matchesNeeded n = 0" by (simp add: matchesNeeded_def)
next
  assume "2 \<le> n"
  then show "byesNeeded n = 2 powr real_of_int \<lceil>log 2 (real n)\<rceil> - real n"
    by (simp add: byesNeeded_def nextPowerOf2_powr)
next
  assume "2 \<le> n"
  then show "matchesNeeded n = (real n - (2 powr real_of_int \<lceil>log 2 (real n)\<rceil> - real n)) / 2"
    by (simp add: matchesNeeded_def byesNeeded_def nextPowerOf2_powr)
next
  show "\<exists>m::nat. matchesNeeded n = real m" by (rule matchesNeeded_integral)
next
  assume "2 \<le> n"
  then show "2 * matchesNeeded n + byesNeeded n = real n"
    by (simp add: matchesNeeded_def field_simps)
qed

theorem matchesNeeded_spec_witness:
  "(1::nat) < 2 \<and> matchesNeeded 1 = 0 \<and> (2::nat) \<le> 5 \<and> matchesNeeded 5 = 1 \<and> byesNeeded 5 = 3
   \<and> (\<exists>m::nat. matchesNeeded 5 = real m) \<and> 2 * matchesNeeded 5 + byesNeeded 5 = real 5"
proof -
  have c: "ceillog2 5 = 3" by code_simp
  have b: "byesNeeded 5 = 3" by (simp add: byesNeeded_def nextPowerOf2_def c)
  have m: "matchesNeeded 5 = 1" by (simp add: matchesNeeded_def b)
  show ?thesis using matchesNeeded_spec[of 1] matchesNeeded_spec[of 5] b m by simp
qed

section \<open>The draw of five entrants in the order C, A, E, B, D\<close>

lemma matchesNeeded_five: "matchesNeeded (Suc (Suc (Suc (Suc (Suc 0))))) = 1"
proof -
  have c: "ceillog2 5 = 3" by code_simp
  have "matchesNeeded 5 = 1"
    by (simp add: matchesNeeded_def byesNeeded_def nextPowerOf2_def c)
  then show ?thesis by (simp add: eval_nat_numeral)
qed

lemma matchesNeeded_length_five: "matchesNeeded (length five) = 1"
  using matchesNeeded_five by (simp add: five_def)

lemma scenario_CAEBD:
  "draws five order_CAEBD (init_state five) = Inr (five_done\<lparr>isDrawing := False\<rparr>)"
  by (simp add: five_def order_CAEBD_def init_state_def drawPlayer_def matchesSoFar_def
      matchesNeeded_five Let_def entrant_def five_done_def)

lemma reach_five_pending:
  "draws five (take 1 order_CAEBD) (init_state five) = Inr five_pending"
  by (simp add: five_def order_CAEBD_def init_state_def drawPlayer_def matchesSoFar_def
      matchesNeeded_five Let_def entrant_def five_pending_def)

lemma reach_five_matched:
  "draws five (take 2 order_CAEBD) (init_state five) = Inr five_matched"
  by (simp add: five_def order_CAEBD_def init_state_def drawPlayer_def matchesSoFar_def
      matchesNeeded_five Let_def entrant_def five_matched_def)

lemma reach_five_done:
  "run five [Toggle, Tick (2/5) ''u1'', Tick 0 ''u2'', Tick (2/3) ''u3'', Tick 0 ''u4'',
             Tick 0 ''u5''] (init_state five) = Inr five_done"
  by (simp add: five_def init_state_def toggleDraw_def drawPlayer_def matchesSoFar_def
      matchesNeeded_five Let_def entrant_def five_done_def)

section \<open>One draw\<close>

lemma random_index_bounds:
  assumes "valid_random rnd" and "0 < n"
  shows "0 \<le> \<lfloor>rnd * real n\<rfloor>" and "\<lfloor>rnd * real n\<rfloor> < int n"
proof -
  from assms have "0 \<le> rnd * real n" by (simp add: valid_random_def)
  then show "0 \<le> \<lfloor>rnd * real n\<rfloor>" by simp
  from assms have "rnd * real n < 1 * real n"
    by (intro mult_strict_right_mono) (simp_all add: valid_random_def)
  then have "rnd * real n < real_of_int (int n)" by simp
  then show "\<lfloor>rnd * real n\<rfloor> < int n" by (simp only: floor_less_iff)
qed

lemma drawPlayer_empty:
  "remainingPlayers s = [] \<Longrightarrow> drawPlayer ip rnd uuid s = Inr (s\<lparr>isDrawing := False\<rparr>)"
  by (simp add: drawPlayer_def)

lemma drawPlayer_step:
  assumes v: "valid_random rnd" and ne: "remainingPlayers s \<noteq> []"
  defines "i \<equiv> nat \<lfloor>rnd * real (length (remainingPlayers s))\<rfloor>"
  defines "drawn \<equiv> remainingPlayers s ! i"
  defines "s1 \<equiv> s\<lparr>remainingPlayers := take i (remainingPlayers s) @ drop (Suc i) (remainingPlayers s),
                   lastDrawnNumber := Some (number drawn)\<rparr>"
  shows "i < length (remainingPlayers s)"
    and "real (matchesSoFar s) < matchesNeeded (length ip) \<Longrightarrow> currentHome s = Some h \<Longrightarrow>
           drawPlayer ip rnd uuid s =
             Inr (s1\<lparr>fixtures := \<lparr>id_fixture = uuid, home = h, away = Some drawn\<rparr> # fixtures s,
                     drawHistory := (name drawn @ '' drawn vs '' @ name h) # drawHistory s,
                     currentHome := None\<rparr>)"
    and "real (matchesSoFar s) < matchesNeeded (length ip) \<Longrightarrow> currentHome s = None \<Longrightarrow>
           drawPlayer ip rnd uuid s =
             Inr (s1\<lparr>currentHome := Some drawn,
                     drawHistory := (name drawn @ '' drawn as Home'') # drawHistory s\<rparr>)"
    and "\<not> real (matchesSoFar s) < matchesNeeded (length ip) \<Longrightarrow>
           drawPlayer ip rnd uuid s =
             Inr (s1\<lparr>fixtures := \<lparr>id_fixture = uuid, home = drawn, away = None\<rparr> # fixtures s,
                     drawHistory := (name drawn @ '' receives a BYE!'') # drawHistory s\<rparr>)"
proof -
  from ne have pos: "0 < length (remainingPlayers s)" by simp
  note b = random_index_bounds[OF v pos]
  from b show "i < length (remainingPlayers s)" unfolding i_def by linarith
  from b have g: "\<not> (\<lfloor>rnd * real (length (remainingPlayers s))\<rfloor> < 0
                    \<or> int (length (remainingPlayers s)) \<le> \<lfloor>rnd * real (length (remainingPlayers s))\<rfloor>)"
    by linarith
  show "real (matchesSoFar s) < matchesNeeded (length ip) \<Longrightarrow> currentHome s = Some h \<Longrightarrow>
           drawPlayer ip rnd uuid s =
             Inr (s1\<lparr>fixtures := \<lparr>id_fixture = uuid, home = h, away = Some drawn\<rparr> # fixtures s,
                     drawHistory := (name drawn @ '' drawn vs '' @ name h) # drawHistory s,
                     currentHome := None\<rparr>)"
    using ne g by (simp add: drawPlayer_def Let_def i_def drawn_def s1_def)
  show "real (matchesSoFar s) < matchesNeeded (length ip) \<Longrightarrow> currentHome s = None \<Longrightarrow>
           drawPlayer ip rnd uuid s =
             Inr (s1\<lparr>currentHome := Some drawn,
                     drawHistory := (name drawn @ '' drawn as Home'') # drawHistory s\<rparr>)"
    using ne g by (simp add: drawPlayer_def Let_def i_def drawn_def s1_def)
  show "\<not> real (matchesSoFar s) < matchesNeeded (length ip) \<Longrightarrow>
           drawPlayer ip rnd uuid s =
             Inr (s1\<lparr>fixtures := \<lparr>id_fixture = uuid, home = drawn, away = None\<rparr> # fixtures s,
                     drawHistory := (name drawn @ '' receives a BYE!'') # drawHistory s\<rparr>)"
    using ne g by (simp add: drawPlayer_def Let_def i_def drawn_def s1_def)
qed

lemma drawPlayer_routing_aux:
  assumes "valid_random rnd" and "remainingPlayers s \<noteq> []"
  shows "\<exists>i s'. i < length (remainingPlayers s)
           \<and> drawPlayer ip rnd uuid s = Inr s'
           \<and> remainingPlayers s' = take i (remainingPlayers s) @ drop (Suc i) (remainingPlayers s)
           \<and> lastDrawnNumber s' = Some (number (remainingPlayers s ! i))
           \<and> isDrawing s' = isDrawing s
           \<and> (if real (matchesSoFar s) < matchesNeeded (length ip)
              then (case currentHome s of
                      Some h \<Rightarrow>
                        fixtures s' = \<lparr>id_fixture = uuid, home = h,
                                       away = Some (remainingPlayers s ! i)\<rparr> # fixtures s
                        \<and> currentHome s' = None
                    | None \<Rightarrow>
                        currentHome s' = Some (remainingPlayers s ! i) \<and> fixtures s' = fixtures s)
              else fixtures s' = \<lparr>id_fixture = uuid, home = remainingPlayers s ! i,
                                  away = None\<rparr> # fixtures s
                   \<and> currentHome s' = currentHome s)"
proof -
  let ?i = "nat \<lfloor>rnd * real (length (remainingPlayers s))\<rfloor>"
  note st = drawPlayer_step[OF assms]
  show ?thesis
  proof (cases "real (matchesSoFar s) < matchesNeeded (length ip)")
    case True
    show ?thesis
    proof (cases "currentHome s")
      case None
      show ?thesis
        by (rule exI[of _ ?i], rule exI, intro conjI, rule st(1), rule st(3)[OF True None])
           (simp_all add: True None)
    next
      case (Some h)
      show ?thesis
        by (rule exI[of _ ?i], rule exI, intro conjI, rule st(1), rule st(2)[OF True Some])
           (simp_all add: True Some)
    qed
  next
    case False
    show ?thesis
      by (rule exI[of _ ?i], rule exI, intro conjI, rule st(1), rule st(4)[OF False])
         (simp_all add: False)
  qed
qed

text \<open>
  C1. A call of \<open>drawPlayer\<close> on a non-empty pool removes the selected entrant from the
  pool and records its number as last drawn. If the number of fixtures with a non-null
  away is strictly less than \<open>matchesNeeded\<close>, a pending home entrant is paired with the
  drawn one in a new fixture (pending as home, drawn as away) and the pending slot is
  cleared, and with no pending entrant the drawn one becomes pending and no fixture is
  added; if that number has reached \<open>matchesNeeded\<close>, the drawn entrant gets a new fixture
  as home with a null away, and the pending slot is left as it is.
\<close>

theorem drawPlayer_routing:
  assumes "valid_random rnd" and "remainingPlayers s \<noteq> []"
  shows "\<exists>i s'. i < length (remainingPlayers s)
           \<and> drawPlayer ip rnd uuid s = Inr s'
           \<and> remainingPlayers s' = take i (remainingPlayers s) @ drop (Suc i) (remainingPlayers s)
           \<and> lastDrawnNumber s' = Some (number (remainingPlayers s ! i))
           \<and> isDrawing s' = isDrawing s
           \<and> (if real (length (filter (\<lambda>f. away f \<noteq> None) (fixtures s)))
                   < matchesNeeded (length ip)
              then (case currentHome s of
                      Some h \<Rightarrow>
                        fixtures s' = \<lparr>id_fixture = uuid, home = h,
                                       away = Some (remainingPlayers s ! i)\<rparr> # fixtures s
                        \<and> currentHome s' = None
                    | None \<Rightarrow>
                        currentHome s' = Some (remainingPlayers s ! i) \<and> fixtures s' = fixtures s)
              else fixtures s' = \<lparr>id_fixture = uuid, home = remainingPlayers s ! i,
                                  away = None\<rparr> # fixtures s
                   \<and> currentHome s' = currentHome s)"
  using drawPlayer_routing_aux[OF assms, of ip uuid] unfolding matchesSoFar_def .

text \<open>
  The three branches on the draw of five entrants (\<open>matchesNeeded = 1\<close>): C is drawn
  first and becomes pending; A is drawn with C pending and the match C against A is
  formed; E is drawn with the match count at 1 and gets a bye.
\<close>

theorem drawPlayer_routing_witness:
  "valid_random (2/5) \<and> remainingPlayers (init_state five) \<noteq> []
   \<and> (\<exists>i s'. i < length five
         \<and> drawPlayer five (2/5) ''u1'' (init_state five) = Inr s'
         \<and> remainingPlayers s' = take i five @ drop (Suc i) five
         \<and> lastDrawnNumber s' = Some (number (five ! i))
         \<and> currentHome s' = Some (five ! i) \<and> fixtures s' = [])
   \<and> valid_random 0 \<and> remainingPlayers five_pending \<noteq> []
   \<and> (\<exists>i s'. i < length (remainingPlayers five_pending)
         \<and> drawPlayer five 0 ''u2'' five_pending = Inr s'
         \<and> lastDrawnNumber s' = Some (number (remainingPlayers five_pending ! i))
         \<and> fixtures s' = [\<lparr>id_fixture = ''u2'', home = entrant 3 ''C'',
                            away = Some (remainingPlayers five_pending ! i)\<rparr>]
         \<and> currentHome s' = None)
   \<and> valid_random (2/3) \<and> remainingPlayers five_matched \<noteq> []
   \<and> (\<exists>i s'. i < length (remainingPlayers five_matched)
         \<and> drawPlayer five (2/3) ''u3'' five_matched = Inr s'
         \<and> lastDrawnNumber s' = Some (number (remainingPlayers five_matched ! i))
         \<and> fixtures s' = \<lparr>id_fixture = ''u3'', home = remainingPlayers five_matched ! i,
                           away = None\<rparr> # fixtures five_matched
         \<and> currentHome s' = None)"
proof -
  have v1: "valid_random (2/5)" and v2: "valid_random 0" and v3: "valid_random (2/3)"
    by (simp_all add: valid_random_def)
  have n1: "remainingPlayers (init_state five) \<noteq> []" by (simp add: init_state_def five_def)
  have n2: "remainingPlayers five_pending \<noteq> []" by (simp add: five_pending_def)
  have n3: "remainingPlayers five_matched \<noteq> []" by (simp add: five_matched_def)
  have r1: "remainingPlayers (init_state five) = five" "fixtures (init_state five) = []"
    "currentHome (init_state five) = None"
    by (simp_all add: init_state_def)
  have r2: "fixtures five_pending = []" "currentHome five_pending = Some (entrant 3 ''C'')"
    by (simp_all add: five_pending_def)
  have r3: "length (filter (\<lambda>f. away f \<noteq> None) (fixtures five_matched)) = 1"
    "currentHome five_matched = None"
    by (simp_all add: five_matched_def)
  have a: "\<exists>i s'. i < length five
         \<and> drawPlayer five (2/5) ''u1'' (init_state five) = Inr s'
         \<and> remainingPlayers s' = take i five @ drop (Suc i) five
         \<and> lastDrawnNumber s' = Some (number (five ! i))
         \<and> currentHome s' = Some (five ! i) \<and> fixtures s' = []"
    using drawPlayer_routing[OF v1 n1, of five "''u1''"]
    unfolding r1 by (simp add: matchesNeeded_length_five) blast
  have b: "\<exists>i s'. i < length (remainingPlayers five_pending)
         \<and> drawPlayer five 0 ''u2'' five_pending = Inr s'
         \<and> lastDrawnNumber s' = Some (number (remainingPlayers five_pending ! i))
         \<and> fixtures s' = [\<lparr>id_fixture = ''u2'', home = entrant 3 ''C'',
                            away = Some (remainingPlayers five_pending ! i)\<rparr>]
         \<and> currentHome s' = None"
    using drawPlayer_routing[OF v2 n2, of five "''u2''"]
    unfolding r2 by (simp add: matchesNeeded_length_five) blast
  have c: "\<exists>i s'. i < length (remainingPlayers five_matched)
         \<and> drawPlayer five (2/3) ''u3'' five_matched = Inr s'
         \<and> lastDrawnNumber s' = Some (number (remainingPlayers five_matched ! i))
         \<and> fixtures s' = \<lparr>id_fixture = ''u3'', home = remainingPlayers five_matched ! i,
                           away = None\<rparr> # fixtures five_matched
         \<and> currentHome s' = None"
    using drawPlayer_routing[OF v3 n3, of five "''u3''"]
    unfolding r3 by (simp add: matchesNeeded_length_five) blast
  from v1 n1 a v2 n2 b v3 n3 c show ?thesis by blast
qed

text \<open>
  C5. On an empty pool \<open>drawPlayer\<close> changes nothing but the drawing flag, which it
  clears; it raises nothing, and the timer effect arms no interval afterwards.
\<close>

theorem drawPlayer_empty_pool:
  assumes "remainingPlayers s = []"
  shows "drawPlayer ip rnd uuid s = Inr (s\<lparr>isDrawing := False\<rparr>)
         \<and> \<not> fst (timerEffect (s\<lparr>isDrawing := False\<rparr>))"
  using assms by (simp add: drawPlayer_def timerEffect_def)

text \<open>At the end of the draw of five entrants, a late tick finds the pool empty.\<close>

theorem drawPlayer_empty_pool_witness:
  "run five [Toggle, Tick (2/5) ''u1'', Tick 0 ''u2'', Tick (2/3) ''u3'', Tick 0 ''u4'',
             Tick 0 ''u5''] (init_state five) = Inr five_done
   \<and> remainingPlayers five_done = [] \<and> isDrawing five_done
   \<and> drawPlayer five (1/2) ''u6'' five_done = Inr (five_done\<lparr>isDrawing := False\<rparr>)
   \<and> \<not> fst (timerEffect (five_done\<lparr>isDrawing := False\<rparr>))"
proof -
  have h: "remainingPlayers five_done = []" by (simp add: five_done_def)
  have f: "isDrawing five_done" by (simp add: five_done_def)
  show ?thesis
    using h f reach_five_done drawPlayer_empty_pool[OF h, of five "1/2" "''u6''"] by simp
qed

section \<open>Counting across draws\<close>

lemma length_without_nth:
  "i < length xs \<Longrightarrow> Suc (length (take i xs @ drop (Suc i) xs)) = length xs"
  by simp

lemma drawPlayer_counts:
  assumes v: "valid_random rnd" and ne: "remainingPlayers s \<noteq> []"
  shows "\<exists>s'. drawPlayer ip rnd uuid s = Inr s'
           \<and> Suc (length (remainingPlayers s')) = length (remainingPlayers s)
           \<and> (real (matchesSoFar s) < matchesNeeded (length ip) \<and> currentHome s = None
                 \<and> currentHome s' \<noteq> None \<and> matchesSoFar s' = matchesSoFar s
                 \<and> byesSoFar s' = byesSoFar s
               \<or> real (matchesSoFar s) < matchesNeeded (length ip) \<and> currentHome s \<noteq> None
                 \<and> currentHome s' = None \<and> matchesSoFar s' = Suc (matchesSoFar s)
                 \<and> byesSoFar s' = byesSoFar s
               \<or> \<not> real (matchesSoFar s) < matchesNeeded (length ip)
                 \<and> currentHome s' = currentHome s \<and> matchesSoFar s' = matchesSoFar s
                 \<and> byesSoFar s' = Suc (byesSoFar s))"
proof -
  note st = drawPlayer_step[OF v ne]
  note len = length_without_nth[OF st(1)]
  show ?thesis
  proof (cases "real (matchesSoFar s) < matchesNeeded (length ip)")
    case True
    show ?thesis
    proof (cases "currentHome s")
      case None
      show ?thesis
        unfolding st(3)[OF True None] using len True None
        by (simp add: matchesSoFar_def byesSoFar_def)
    next
      case (Some h)
      show ?thesis
        unfolding st(2)[OF True Some] using len True Some
        by (simp add: matchesSoFar_def byesSoFar_def)
    qed
  next
    case False
    show ?thesis
      unfolding st(4)[OF False] using len False
      by (simp add: matchesSoFar_def byesSoFar_def)
  qed
qed

lemma bracket_inv_init: "bracket_inv ip (init_state ip)"
proof -
  obtain m :: nat where "matchesNeeded (length ip) = real m"
    using matchesNeeded_integral by blast
  then show ?thesis
    by (simp add: bracket_inv_def init_state_def entrantTotal_def pendingCount_def
        matchesSoFar_def byesSoFar_def)
qed

lemma bracket_inv_step:
  assumes inv: "bracket_inv ip s" and v: "valid_random rnd"
  shows "\<exists>s'. drawPlayer ip rnd uuid s = Inr s' \<and> bracket_inv ip s'
           \<and> length (remainingPlayers s') = length (remainingPlayers s) - 1"
proof (cases "remainingPlayers s = []")
  case True
  have "bracket_inv ip (s\<lparr>isDrawing := False\<rparr>)"
    using inv by (simp add: bracket_inv_def entrantTotal_def pendingCount_def
        matchesSoFar_def byesSoFar_def)
  then show ?thesis using True by (simp add: drawPlayer_empty)
next
  case False
  obtain m :: nat where m: "matchesNeeded (length ip) = real m"
    using matchesNeeded_integral by blast
  from drawPlayer_counts[OF v False, of ip uuid] obtain s' where
    d: "drawPlayer ip rnd uuid s = Inr s'"
    and l: "Suc (length (remainingPlayers s')) = length (remainingPlayers s)"
    and c: "matchesSoFar s < m \<and> currentHome s = None
                 \<and> currentHome s' \<noteq> None \<and> matchesSoFar s' = matchesSoFar s
                 \<and> byesSoFar s' = byesSoFar s
               \<or> matchesSoFar s < m \<and> currentHome s \<noteq> None
                 \<and> currentHome s' = None \<and> matchesSoFar s' = Suc (matchesSoFar s)
                 \<and> byesSoFar s' = byesSoFar s
               \<or> \<not> matchesSoFar s < m
                 \<and> currentHome s' = currentHome s \<and> matchesSoFar s' = matchesSoFar s
                 \<and> byesSoFar s' = Suc (byesSoFar s)"
    unfolding m of_nat_less_iff by blast
  from inv have i: "entrantTotal s = length ip" "matchesSoFar s \<le> m"
    "matchesSoFar s < m \<longrightarrow> byesSoFar s = 0" "currentHome s \<noteq> None \<longrightarrow> matchesSoFar s < m"
    unfolding bracket_inv_def m of_nat_less_iff of_nat_le_iff by blast+
  have "entrantTotal s' = length ip \<and> matchesSoFar s' \<le> m
        \<and> (matchesSoFar s' < m \<longrightarrow> byesSoFar s' = 0)
        \<and> (currentHome s' \<noteq> None \<longrightarrow> matchesSoFar s' < m)"
    using c i l by (auto simp: entrantTotal_def pendingCount_def split: option.splits)
  then have "bracket_inv ip s'"
    unfolding bracket_inv_def m of_nat_less_iff of_nat_le_iff .
  with d l show ?thesis by auto
qed

lemma bracket_inv_draws:
  assumes "bracket_inv ip s" and "valid_randoms cs"
  shows "\<exists>s'. draws ip cs s = Inr s' \<and> bracket_inv ip s'
           \<and> length (remainingPlayers s') = length (remainingPlayers s) - length cs"
  using assms
proof (induction cs arbitrary: s)
  case Nil
  then show ?case by simp
next
  case (Cons c cs)
  obtain rnd uuid where c: "c = (rnd, uuid)" by (cases c)
  from Cons.prems(2) have v: "valid_random rnd" and vs: "valid_randoms cs"
    by (simp_all add: valid_randoms_def c)
  from bracket_inv_step[OF Cons.prems(1) v, of uuid] obtain s1 where
    s1: "drawPlayer ip rnd uuid s = Inr s1" "bracket_inv ip s1"
        "length (remainingPlayers s1) = length (remainingPlayers s) - 1"
    by blast
  from Cons.IH[OF s1(2) vs] obtain s' where
    "draws ip cs s1 = Inr s'" "bracket_inv ip s'"
    "length (remainingPlayers s') = length (remainingPlayers s1) - length cs"
    by blast
  with s1 show ?case by (simp add: c)
qed

lemma bracket_inv_reached:
  assumes "valid_randoms cs"
  shows "\<exists>s'. draws ip cs (init_state ip) = Inr s' \<and> bracket_inv ip s'
           \<and> length (remainingPlayers s') = length ip - length cs"
  using bracket_inv_draws[OF bracket_inv_init assms, of ip] by (simp add: init_state_def)

lemma valid_order_CAEBD: "valid_randoms order_CAEBD"
  by (simp add: valid_randoms_def valid_random_def order_CAEBD_def)

text \<open>
  C2. From the initial state of a stage with N entrants, after any sequence of
  \<open>drawPlayer\<close> calls the size of the remaining pool, plus one for a pending home entrant,
  plus twice the number of fixtures with an away entrant, plus the number of fixtures
  with a null away, is N.
\<close>

theorem entrant_sum_invariant:
  assumes "valid_randoms cs"
  shows "\<exists>s. draws ip cs (init_state ip) = Inr s
           \<and> length (remainingPlayers s)
             + (case currentHome s of None \<Rightarrow> 0 | Some h \<Rightarrow> 1)
             + 2 * length (filter (\<lambda>f. away f \<noteq> None) (fixtures s))
             + length (filter (\<lambda>f. away f = None) (fixtures s)) = length ip"
proof -
  from bracket_inv_reached[OF assms, of ip] obtain s where
    "draws ip cs (init_state ip) = Inr s" and "bracket_inv ip s"
    by blast
  then show ?thesis
    by (auto simp: bracket_inv_def entrantTotal_def pendingCount_def matchesSoFar_def
        byesSoFar_def)
qed

theorem entrant_sum_invariant_witness:
  "valid_randoms (take 3 order_CAEBD)
   \<and> (\<exists>s. draws five (take 3 order_CAEBD) (init_state five) = Inr s
           \<and> length (remainingPlayers s)
             + (case currentHome s of None \<Rightarrow> 0 | Some h \<Rightarrow> 1)
             + 2 * length (filter (\<lambda>f. away f \<noteq> None) (fixtures s))
             + length (filter (\<lambda>f. away f = None) (fixtures s)) = length five)"
proof -
  have h: "valid_randoms (take 3 order_CAEBD)"
    by (simp add: valid_randoms_def valid_random_def order_CAEBD_def)
  show ?thesis using h entrant_sum_invariant[OF h, of five] by blast
qed

text \<open>
  C4. With at least two entrants, the pool after a sequence of draws has as many
  entrants as the initial list minus the number of draws made, so it is empty from the
  N-th draw on; and whenever it is empty there are exactly \<open>matchesNeeded\<close> fixtures with
  an away entrant, exactly \<open>byesNeeded = nextPow2 N - N\<close> fixtures with a null away, and
  no pending home entrant.
\<close>

theorem draw_until_empty:
  assumes n2: "2 \<le> length ip" and v: "valid_randoms cs"
  shows "\<exists>s. draws ip cs (init_state ip) = Inr s
           \<and> length (remainingPlayers s) = length ip - length cs
           \<and> (remainingPlayers s = [] \<longrightarrow>
                real (length (filter (\<lambda>f. away f \<noteq> None) (fixtures s)))
                  = matchesNeeded (length ip)
                \<and> real (length (filter (\<lambda>f. away f = None) (fixtures s)))
                  = byesNeeded (length ip)
                \<and> byesNeeded (length ip) = nextPowerOf2 (length ip) - real (length ip)
                \<and> currentHome s = None)"
proof -
  from bracket_inv_reached[OF v, of ip] obtain s where
    d: "draws ip cs (init_state ip) = Inr s" and inv: "bracket_inv ip s"
    and l: "length (remainingPlayers s) = length ip - length cs"
    by blast
  define q :: nat where "q = 2 ^ (ceillog2 (length ip) - 1)"
  define m where "m = length ip - q"
  have M: "matchesNeeded (length ip) = real m" and q: "q < length ip"
    using matchesNeeded_nat[OF n2] by (simp_all add: m_def q_def)
  have "real (length ip) \<le> nextPowerOf2 (length ip)"
    using n2 by (intro nextPowerOf2_bounds) simp
  moreover have B: "nextPowerOf2 (length ip) - real (length ip) = real (length ip) - 2 * real m"
    using n2 M by (simp add: matchesNeeded_def byesNeeded_def field_simps)
  ultimately have "2 * real m \<le> real (length ip)" by simp
  then have m2: "2 * m \<le> length ip" by linarith
  from inv have i: "entrantTotal s = length ip" "matchesSoFar s \<le> m"
    "matchesSoFar s < m \<longrightarrow> byesSoFar s = 0" "currentHome s \<noteq> None \<longrightarrow> matchesSoFar s < m"
    unfolding bracket_inv_def M of_nat_less_iff of_nat_le_iff by blast+
  have fin: "matchesSoFar s = m \<and> byesSoFar s + 2 * m = length ip \<and> currentHome s = None"
    if e: "remainingPlayers s = []"
  proof -
    have "\<not> matchesSoFar s < m"
    proof
      assume lt: "matchesSoFar s < m"
      with i(3) have "byesSoFar s = 0" by simp
      with i(1) e have "pendingCount s + 2 * matchesSoFar s = length ip"
        by (simp add: entrantTotal_def)
      moreover have "pendingCount s \<le> 1" by (simp add: pendingCount_def split: option.splits)
      ultimately show False using lt m2 by linarith
    qed
    with i(2) have eq: "matchesSoFar s = m" by simp
    with i(4) have p: "currentHome s = None" by auto
    with i(1) e eq show ?thesis by (simp add: entrantTotal_def pendingCount_def)
  qed
  have "real (length (filter (\<lambda>f. away f \<noteq> None) (fixtures s))) = matchesNeeded (length ip)
        \<and> real (length (filter (\<lambda>f. away f = None) (fixtures s))) = byesNeeded (length ip)
        \<and> byesNeeded (length ip) = nextPowerOf2 (length ip) - real (length ip)
        \<and> currentHome s = None"
    if e: "remainingPlayers s = []"
  proof -
    note f = fin[OF e]
    from f have "real (byesSoFar s) + 2 * real m = real (length ip)"
      by (metis of_nat_add of_nat_mult of_nat_numeral)
    then have "real (byesSoFar s) = nextPowerOf2 (length ip) - real (length ip)"
      using B by simp
    with f M show ?thesis by (simp add: matchesSoFar_def byesSoFar_def byesNeeded_def)
  qed
  with d l show ?thesis by blast
qed

theorem draw_until_empty_witness:
  "2 \<le> length five \<and> valid_randoms order_CAEBD
   \<and> (\<exists>s. draws five order_CAEBD (init_state five) = Inr s
           \<and> remainingPlayers s = []
           \<and> length (filter (\<lambda>f. away f \<noteq> None) (fixtures s)) = 1
           \<and> length (filter (\<lambda>f. away f = None) (fixtures s)) = 3
           \<and> currentHome s = None)"
proof -
  have l5: "length five = 5" by (simp add: five_def)
  have h1: "2 \<le> length five" by (simp add: l5)
  have c: "ceillog2 5 = 3" by code_simp
  have n: "byesNeeded (length five) = 3"
    by (simp add: l5 byesNeeded_def nextPowerOf2_def c)
  have m: "matchesNeeded (length five) = 1"
    by (simp add: l5 matchesNeeded_def byesNeeded_def nextPowerOf2_def c)
  have l: "length five - length order_CAEBD = 0" by (simp add: l5 order_CAEBD_def)
  show ?thesis
    using h1 valid_order_CAEBD draw_until_empty[OF h1 valid_order_CAEBD]
    unfolding n m l by auto
qed

text \<open>
  C7. When the number of entrants is a power of two (at least 2), no sequence of
  \<open>drawPlayer\<close> calls leaves a fixture with a null away in the list, and as long as the
  pool is not empty the count of fixtures with an away entrant is below \<open>matchesNeeded\<close>,
  so the branch that creates a bye is not taken.
\<close>

theorem power_of_two_no_bye:
  assumes p2: "length ip = 2 ^ j" and j: "1 \<le> j" and v: "valid_randoms cs"
  shows "\<exists>s. draws ip cs (init_state ip) = Inr s
           \<and> filter (\<lambda>f. away f = None) (fixtures s) = []
           \<and> (remainingPlayers s \<noteq> [] \<longrightarrow>
                real (length (filter (\<lambda>f. away f \<noteq> None) (fixtures s)))
                  < matchesNeeded (length ip))"
proof -
  from bracket_inv_reached[OF v, of ip] obtain s where
    d: "draws ip cs (init_state ip) = Inr s" and inv: "bracket_inv ip s"
    by blast
  define m :: nat where "m = 2 ^ (j - 1)"
  from j have tw: "(2::nat) ^ j = 2 * m" unfolding m_def by (cases j) simp_all
  then have n2: "2 \<le> length ip" using p2 by (simp add: m_def)
  have "ceillog2 (length ip) = j" unfolding p2 by simp
  with matchesNeeded_nat(1)[OF n2] have M: "matchesNeeded (length ip) = real m"
    using p2 tw by (simp add: m_def)
  from inv have i0: "entrantTotal s = length ip" and i: "matchesSoFar s \<le> m"
    "matchesSoFar s < m \<longrightarrow> byesSoFar s = 0"
    unfolding bracket_inv_def M of_nat_less_iff of_nat_le_iff by blast+
  from i0 have i1: "entrantTotal s = 2 * m" by (simp only: p2 tw)
  have b: "byesSoFar s = 0"
    using i i1 by (cases "matchesSoFar s < m") (auto simp: entrantTotal_def)
  have r: "matchesSoFar s < m" if "remainingPlayers s \<noteq> []"
  proof (rule ccontr)
    assume "\<not> matchesSoFar s < m"
    with i(1) have "matchesSoFar s = m" by simp
    with i1 have "length (remainingPlayers s) = 0" by (simp add: entrantTotal_def)
    with that show False by simp
  qed
  from b have "filter (\<lambda>f. away f = None) (fixtures s) = []" by (simp add: byesSoFar_def)
  moreover from r have "remainingPlayers s \<noteq> [] \<longrightarrow>
      real (length (filter (\<lambda>f. away f \<noteq> None) (fixtures s))) < matchesNeeded (length ip)"
    unfolding M of_nat_less_iff by (simp add: matchesSoFar_def)
  ultimately show ?thesis using d by blast
qed

theorem power_of_two_no_bye_witness:
  "length four = 2 ^ 2 \<and> (1::nat) \<le> 2 \<and> valid_randoms (take 4 order_CAEBD)
   \<and> (\<exists>s. draws four (take 4 order_CAEBD) (init_state four) = Inr s
           \<and> filter (\<lambda>f. away f = None) (fixtures s) = []
           \<and> (remainingPlayers s \<noteq> [] \<longrightarrow>
                real (length (filter (\<lambda>f. away f \<noteq> None) (fixtures s)))
                  < matchesNeeded (length four)))"
proof -
  have h1: "length four = 2 ^ 2" by (simp add: four_def)
  have h2: "(1::nat) \<le> 2" by simp
  have h3: "valid_randoms (take 4 order_CAEBD)"
    by (simp add: valid_randoms_def valid_random_def order_CAEBD_def)
  show ?thesis using h1 h3 power_of_two_no_bye[OF h1 h2 h3] by simp
qed

section \<open>Where the entrants are\<close>

lemma mset_without_nth:
  assumes "i < length xs"
  shows "add_mset (xs ! i) (mset (take i xs @ drop (Suc i) xs)) = mset xs"
proof -
  have "mset xs = mset (take i xs @ xs ! i # drop (Suc i) xs)"
    using id_take_nth_drop[OF assms] by simp
  then show ?thesis by simp
qed

lemma drawPlayer_mset:
  assumes v: "valid_random rnd"
  shows "\<exists>s'. drawPlayer ip rnd uuid s = Inr s' \<and> mset (allPlayers s') = mset (allPlayers s)"
proof (cases "remainingPlayers s = []")
  case True
  then show ?thesis
    by (simp add: drawPlayer_empty allPlayers_def pendingPlayers_def placedPlayers_def)
next
  case False
  note st = drawPlayer_step[OF v False]
  note ms = mset_without_nth[OF st(1), symmetric]
  show ?thesis
  proof (cases "real (matchesSoFar s) < matchesNeeded (length ip)")
    case True
    show ?thesis
    proof (cases "currentHome s")
      case None
      show ?thesis
        unfolding st(3)[OF True None] using None
        by (simp add: allPlayers_def pendingPlayers_def placedPlayers_def ms)
    next
      case (Some h)
      show ?thesis
        unfolding st(2)[OF True Some] using Some
        by (simp add: allPlayers_def pendingPlayers_def placedPlayers_def fixturePlayers_def ms)
    qed
  next
    case False
    show ?thesis
      unfolding st(4)[OF False]
      by (simp add: allPlayers_def pendingPlayers_def placedPlayers_def fixturePlayers_def ms)
  qed
qed

lemma draws_mset:
  assumes "valid_randoms cs"
  shows "\<exists>s'. draws ip cs s = Inr s' \<and> mset (allPlayers s') = mset (allPlayers s)"
  using assms
proof (induction cs arbitrary: s)
  case Nil
  then show ?case by simp
next
  case (Cons c cs)
  obtain rnd uuid where c: "c = (rnd, uuid)" by (cases c)
  from Cons.prems have v: "valid_random rnd" and vs: "valid_randoms cs"
    by (simp_all add: valid_randoms_def c)
  from drawPlayer_mset[OF v, of ip uuid s] obtain s1 where
    s1: "drawPlayer ip rnd uuid s = Inr s1" "mset (allPlayers s1) = mset (allPlayers s)"
    by blast
  from Cons.IH[OF vs, of s1] obtain s' where
    "draws ip cs s1 = Inr s'" "mset (allPlayers s') = mset (allPlayers s1)"
    by blast
  with s1 show ?case by (simp add: c)
qed

text \<open>
  C6. With unique entry numbers, after any sequence of \<open>drawPlayer\<close> calls no entry
  number occurs twice among the home and away slots of the fixtures, and no entrant of
  the remaining pool is in a fixture or in the pending home slot: the entry numbers of
  pool, pending slot and fixture slots together are pairwise different.
\<close>

theorem entrants_never_duplicated:
  assumes u: "distinct (map number ip)" and v: "valid_randoms cs"
  shows "\<exists>s. draws ip cs (init_state ip) = Inr s
           \<and> distinct (map number (placedPlayers s))
           \<and> set (remainingPlayers s) \<inter> (set (placedPlayers s) \<union> set (pendingPlayers s)) = {}
           \<and> distinct (map number (remainingPlayers s @ pendingPlayers s @ placedPlayers s))"
proof -
  from draws_mset[OF v, of ip "init_state ip"] obtain s where
    d: "draws ip cs (init_state ip) = Inr s"
    and m: "mset (allPlayers s) = mset (allPlayers (init_state ip))"
    by blast
  have "allPlayers (init_state ip) = ip"
    by (simp add: allPlayers_def init_state_def pendingPlayers_def placedPlayers_def)
  with m have "mset (map number (allPlayers s)) = mset (map number ip)"
    by (metis mset_map)
  with u have dist: "distinct (map number (allPlayers s))"
    by (metis mset_eq_imp_distinct_iff)
  then have all: "distinct (map number (remainingPlayers s @ pendingPlayers s @ placedPlayers s))"
    by (simp only: allPlayers_def)
  then have "distinct (remainingPlayers s @ pendingPlayers s @ placedPlayers s)"
    by (simp only: distinct_map)
  then have "set (remainingPlayers s) \<inter> (set (placedPlayers s) \<union> set (pendingPlayers s)) = {}"
    by auto
  moreover from all have "distinct (map number (placedPlayers s))" by simp
  ultimately show ?thesis using d all by blast
qed

theorem entrants_never_duplicated_witness:
  "distinct (map number five) \<and> valid_randoms order_CAEBD
   \<and> (\<exists>s. draws five order_CAEBD (init_state five) = Inr s
           \<and> distinct (map number (placedPlayers s))
           \<and> set (remainingPlayers s) \<inter> (set (placedPlayers s) \<union> set (pendingPlayers s)) = {}
           \<and> distinct (map number (remainingPlayers s @ pendingPlayers s @ placedPlayers s)))"
proof -
  have h: "distinct (map number five)" by (simp add: five_def entrant_def)
  show ?thesis
    using h valid_order_CAEBD entrants_never_duplicated[OF h valid_order_CAEBD] by blast
qed

section \<open>After the last draw\<close>

lemma step_empty_pool:
  assumes "remainingPlayers s = []"
  shows "\<exists>s'. step ip e s = Inr s' \<and> remainingPlayers s' = []
           \<and> (isDrawing s' \<longrightarrow> isDrawing s \<and> e = Toggle)"
  using assms by (cases e) (simp_all add: drawPlayer_def toggleDraw_def timerEffect_def)

text \<open>
  C10. Once the pool is empty the drawing flag never becomes true again:
  \<open>toggleDraw\<close> changes nothing, the timer effect and a draw on the empty pool clear
  the flag, and after any sequence of clicks, ticks and effects the pool is still empty
  and the flag is set only if it was set before and nothing but clicks happened.
\<close>

theorem no_restart_after_exhaustion:
  assumes "remainingPlayers s = []"
  shows "toggleDraw s = s
         \<and> \<not> isDrawing (snd (timerEffect s))
         \<and> (\<exists>s'. drawPlayer ip rnd uuid s = Inr s' \<and> \<not> isDrawing s')
         \<and> (\<exists>s'. run ip es s = Inr s' \<and> remainingPlayers s' = []
                \<and> (isDrawing s' \<longrightarrow> isDrawing s \<and> set es \<subseteq> {Toggle}))"
proof -
  have "\<exists>s'. run ip es s = Inr s' \<and> remainingPlayers s' = []
           \<and> (isDrawing s' \<longrightarrow> isDrawing s \<and> set es \<subseteq> {Toggle})"
    using assms
  proof (induction es arbitrary: s)
    case Nil
    then show ?case by simp
  next
    case (Cons e es)
    from step_empty_pool[OF Cons.prems, of ip e] obtain s1 where
      s1: "step ip e s = Inr s1" "remainingPlayers s1 = []"
          "isDrawing s1 \<longrightarrow> isDrawing s \<and> e = Toggle"
      by blast
    from Cons.IH[OF s1(2)] obtain s' where
      "run ip es s1 = Inr s'" "remainingPlayers s' = []"
      "isDrawing s' \<longrightarrow> isDrawing s1 \<and> set es \<subseteq> {Toggle}"
      by blast
    with s1 show ?case by auto
  qed
  then show ?thesis
    using assms by (simp add: toggleDraw_def timerEffect_def drawPlayer_def)
qed

text \<open>
  At the end of the draw of five entrants the flag is still set; clicks alone leave it
  set, and it is clear after any sequence with a tick or an effect in it.
\<close>

theorem no_restart_after_exhaustion_witness:
  "run five [Toggle, Tick (2/5) ''u1'', Tick 0 ''u2'', Tick (2/3) ''u3'', Tick 0 ''u4'',
             Tick 0 ''u5''] (init_state five) = Inr five_done
   \<and> remainingPlayers five_done = [] \<and> isDrawing five_done
   \<and> toggleDraw five_done = five_done
   \<and> \<not> isDrawing (snd (timerEffect five_done))
   \<and> (\<exists>s'. drawPlayer five (1/2) ''u6'' five_done = Inr s' \<and> \<not> isDrawing s')
   \<and> (\<exists>s'. run five [Toggle, Tick (1/2) ''u6'', Toggle, Effect, Toggle] five_done = Inr s'
           \<and> remainingPlayers s' = [] \<and> \<not> isDrawing s')"
proof -
  have h: "remainingPlayers five_done = []" by (simp add: five_done_def)
  have f: "isDrawing five_done" by (simp add: five_done_def)
  have e: "\<not> set [Toggle, Tick (1/2) ''u6'', Toggle, Effect, Toggle] \<subseteq> {Toggle}" by simp
  show ?thesis
    using h f e reach_five_done no_restart_after_exhaustion[OF h,
        of five "1/2" "''u6''" "[Toggle, Tick (1/2) ''u6'', Toggle, Effect, Toggle]"]
    by blast
qed

section \<open>Ejection\<close>

lemma map_of_delete_same: "map_of (AList.delete k al) k = None"
  by (simp add: AList.delete_eq map_of_eq_None_iff image_iff)

text \<open>
  C8. Ejecting a number that has no body in the number-to-body map (already ejected or
  never created) leaves the whole machine state as it is, and so does a null drawn
  number; nothing is raised. When the map has a body for the number, that body's first
  occurrence is taken out of the world's body list (so the world no longer holds it when
  it held it once) and the number is no longer a key of the map; ejecting the same
  number again changes nothing.
\<close>

theorem eject_spec:
  "eject None m = m
   \<and> (map_of (bodiesRef m) k = None \<longrightarrow> eject (Some k) m = m)
   \<and> (\<forall>engine body. engineRef m = Some engine \<and> map_of (bodiesRef m) k = Some body \<longrightarrow>
         engineRef (eject (Some k) m)
           = Some (engine\<lparr>world_bodies := remove1 body (world_bodies engine)\<rparr>)
         \<and> (distinct (world_bodies engine) \<longrightarrow>
              (\<forall>e'. engineRef (eject (Some k) m) = Some e' \<longrightarrow> body \<notin> set (world_bodies e')))
         \<and> map_of (bodiesRef (eject (Some k) m)) k = None
         \<and> (\<forall>k'. k' \<noteq> k \<longrightarrow> map_of (bodiesRef (eject (Some k) m)) k' = map_of (bodiesRef m) k')
         \<and> store (eject (Some k) m) = store m
         \<and> isDrawingRef (eject (Some k) m) = isDrawingRef m)
   \<and> eject (Some k) (eject (Some k) m) = eject (Some k) m"
proof (intro conjI allI impI)
  show "eject None m = m" by (simp add: eject_def)
next
  assume "map_of (bodiesRef m) k = None"
  then show "eject (Some k) m = m" by (simp add: eject_def split: option.splits)
next
  fix engine body
  assume a: "engineRef m = Some engine \<and> map_of (bodiesRef m) k = Some body"
  then have e: "eject (Some k) m =
      m\<lparr>engineRef := Some (engine\<lparr>world_bodies := remove1 body (world_bodies engine)\<rparr>),
        bodiesRef := AList.delete k (bodiesRef m)\<rparr>"
    by (simp add: eject_def World_remove_def)
  show "engineRef (eject (Some k) m)
          = Some (engine\<lparr>world_bodies := remove1 body (world_bodies engine)\<rparr>)"
    by (simp add: e)
  show "map_of (bodiesRef (eject (Some k) m)) k = None"
    by (simp add: e map_of_delete_same)
  show "store (eject (Some k) m) = store m" by (simp add: e)
  show "isDrawingRef (eject (Some k) m) = isDrawingRef m" by (simp add: e)
  { fix k' assume "k' \<noteq> k"
    then show "map_of (bodiesRef (eject (Some k) m)) k' = map_of (bodiesRef m) k'"
      by (simp add: e delete_conv') }
  { fix e' assume d: "distinct (world_bodies engine)"
      and "engineRef (eject (Some k) m) = Some e'"
    then have "world_bodies e' = remove1 body (world_bodies engine)" by (auto simp: e)
    with d show "body \<notin> set (world_bodies e')" by simp }
next
  show "eject (Some k) (eject (Some k) m) = eject (Some k) m"
    by (simp add: eject_def map_of_delete_same split: option.splits)
qed

theorem eject_spec_witness:
  "map_of (bodiesRef sample_machine) 9 = None
   \<and> eject (Some 9) sample_machine = sample_machine
   \<and> engineRef sample_machine = Some \<lparr>gravity_y = 1, world_bodies = [0, 1, 2, 3, 4, 5, 6]\<rparr>
   \<and> map_of (bodiesRef sample_machine) 2 = Some 5
   \<and> distinct [0, 1, 2, 3, 4, 5, 6 :: nat]
   \<and> engineRef (eject (Some 2) sample_machine)
       = Some \<lparr>gravity_y = 1, world_bodies = [0, 1, 2, 3, 4, 6]\<rparr>
   \<and> map_of (bodiesRef (eject (Some 2) sample_machine)) 2 = None
   \<and> map_of (bodiesRef (eject (Some 2) sample_machine)) 3 = Some 6
   \<and> eject (Some 2) (eject (Some 2) sample_machine) = eject (Some 2) sample_machine"
proof -
  have h1: "map_of (bodiesRef sample_machine) 9 = None" by (simp add: sample_machine_def)
  have h2: "engineRef sample_machine = Some \<lparr>gravity_y = 1, world_bodies = [0, 1, 2, 3, 4, 5, 6]\<rparr>"
    by (simp add: sample_machine_def)
  have h3: "map_of (bodiesRef sample_machine) 2 = Some 5" by (simp add: sample_machine_def)
  have h4: "map_of (bodiesRef sample_machine) 3 = Some 6" by (simp add: sample_machine_def)
  have h5: "distinct [0, 1, 2, 3, 4, 5, 6 :: nat]" by simp
  show ?thesis
    using h1 h2 h3 h4 h5 eject_spec[of sample_machine 9] eject_spec[of sample_machine 2]
    by simp
qed

section \<open>Force regimes\<close>

lemma attract_near_centre:
  assumes "sqrt ((width / 2 - vx (position body)) * (width / 2 - vx (position body))
                 + (height / 2 - vy (position body)) * (height / 2 - vy (position body))) < 1"
  shows "attract width height rng c body = (body, c)"
  using assms by (simp add: attract_def Let_def)

lemma attract_away_from_centre:
  assumes "\<not> sqrt ((width / 2 - vx (position body)) * (width / 2 - vx (position body))
                 + (height / 2 - vy (position body)) * (height / 2 - vy (position body))) < 1"
  shows "force (fst (attract width height rng c body)) =
           \<lparr>vx = vx (force body) + ((width / 2 - vx (position body)) * (0.00002 * mass body)
                                     + (rng c - 0.5) * (0.015 * mass body)),
            vy = vy (force body) + ((height / 2 - vy (position body)) * (0.00002 * mass body)
                                     + (rng (c + 1) - 0.5) * (0.015 * mass body))\<rparr>"
    and "position (fst (attract width height rng c body)) = position body"
    and "mass (fst (attract width height rng c body)) = mass body"
    and "torque (fst (attract width height rng c body)) = torque body"
  using assms by (simp_all add: attract_def Let_def applyForce_def setAngularVelocity_def)

lemma forEach_attract_other:
  "b \<notin> set bs \<Longrightarrow> forEach_attract width height rng bs c st b = st b"
  by (induction bs arbitrary: c st) (auto split: prod.splits)

lemma forEach_attract_member:
  assumes "distinct bs" and "b \<in> set bs"
  shows "\<exists>c'. forEach_attract width height rng bs c st b = fst (attract width height rng c' (st b))"
  using assms
proof (induction bs arbitrary: c st)
  case Nil
  then show ?case by simp
next
  case (Cons a bs)
  obtain body' c1 where at: "attract width height rng c (st a) = (body', c1)"
    by (cases "attract width height rng c (st a)")
  show ?case
  proof (cases "b = a")
    case True
    with Cons.prems have "b \<notin> set bs" by simp
    then have "forEach_attract width height rng bs c1 (st(a := body')) b = (st(a := body')) b"
      by (rule forEach_attract_other)
    with True at have "forEach_attract width height rng (a # bs) c st b
        = fst (attract width height rng c (st b))"
      by simp
    then show ?thesis by blast
  next
    case False
    with Cons.prems have "distinct bs" "b \<in> set bs" by simp_all
    from Cons.IH[OF this, of c1 "st(a := body')"] obtain c' where
      "forEach_attract width height rng bs c1 (st(a := body')) b
         = fst (attract width height rng c' ((st(a := body')) b))"
      by blast
    with False at have "forEach_attract width height rng (a # bs) c st b
        = fst (attract width height rng c' (st b))"
      by simp
    then show ?thesis by blast
  qed
qed

text \<open>
  C9. With the drawing flag false, the gravity toggle leaves \<open>gravity.y = 1\<close> and the
  \<open>beforeUpdate\<close> handler changes nothing: no attractor, turbulence or spin. With the
  flag true, \<open>gravity.y = 0\<close> and the handler adds, to the force of every body of the
  number-to-body map, the vector to the arena centre scaled by \<open>0.00002 * mass\<close> plus a
  turbulence term \<open>(random - 0.5) * 0.015 * mass\<close> per coordinate, unless the body is
  within distance 1 of the centre, which leaves it as it was; bodies outside the map are
  not touched.
\<close>

theorem force_regimes:
  assumes eng: "engineRef m = Some engine"
  shows "engineRef (syncDrawing False m) = Some (engine\<lparr>gravity_y := 1\<rparr>)
     \<and> beforeUpdate width height rng (syncDrawing False m) = syncDrawing False m
     \<and> engineRef (beforeUpdate width height rng (syncDrawing True m))
         = Some (engine\<lparr>gravity_y := 0\<rparr>)
     \<and> (distinct (map snd (bodiesRef m)) \<longrightarrow>
          (\<forall>b \<in> snd ` set (bodiesRef m). \<exists>c.
             let body = store m b;
                 body' = store (beforeUpdate width height rng (syncDrawing True m)) b;
                 dx = width / 2 - vx (position body);
                 dy = height / 2 - vy (position body)
             in if sqrt (dx * dx + dy * dy) < 1 then body' = body
                else force body' =
                       \<lparr>vx = vx (force body) + (dx * (0.00002 * mass body)
                                                 + (rng c - 0.5) * (0.015 * mass body)),
                        vy = vy (force body) + (dy * (0.00002 * mass body)
                                                 + (rng (c + 1) - 0.5) * (0.015 * mass body))\<rparr>
                     \<and> position body' = position body \<and> mass body' = mass body))
     \<and> (\<forall>b. b \<notin> snd ` set (bodiesRef m) \<longrightarrow>
           store (beforeUpdate width height rng (syncDrawing True m)) b = store m b)"
proof -
  have off: "syncDrawing False m
      = m\<lparr>isDrawingRef := False, engineRef := Some (engine\<lparr>gravity_y := 1\<rparr>)\<rparr>"
    using eng by (simp add: syncDrawing_def)
  have on: "syncDrawing True m
      = m\<lparr>isDrawingRef := True, engineRef := Some (engine\<lparr>gravity_y := 0\<rparr>)\<rparr>"
    using eng by (simp add: syncDrawing_def)
  have st: "store (beforeUpdate width height rng (syncDrawing True m))
      = forEach_attract width height rng (map snd (bodiesRef m)) 0 (store m)"
    by (simp add: on beforeUpdate_def)
  have a: "engineRef (syncDrawing False m) = Some (engine\<lparr>gravity_y := 1\<rparr>)"
    by (simp add: off)
  have b: "beforeUpdate width height rng (syncDrawing False m) = syncDrawing False m"
    by (simp add: off beforeUpdate_def)
  have c: "engineRef (beforeUpdate width height rng (syncDrawing True m))
      = Some (engine\<lparr>gravity_y := 0\<rparr>)"
    by (simp add: on beforeUpdate_def)
  have d: "\<exists>c.
             let body = store m b;
                 body' = store (beforeUpdate width height rng (syncDrawing True m)) b;
                 dx = width / 2 - vx (position body);
                 dy = height / 2 - vy (position body)
             in if sqrt (dx * dx + dy * dy) < 1 then body' = body
                else force body' =
                       \<lparr>vx = vx (force body) + (dx * (0.00002 * mass body)
                                                 + (rng c - 0.5) * (0.015 * mass body)),
                        vy = vy (force body) + (dy * (0.00002 * mass body)
                                                 + (rng (c + 1) - 0.5) * (0.015 * mass body))\<rparr>
                     \<and> position body' = position body \<and> mass body' = mass body"
    if dist: "distinct (map snd (bodiesRef m))" and mem: "b \<in> snd ` set (bodiesRef m)" for b
  proof -
    from mem have "b \<in> set (map snd (bodiesRef m))" by simp
    from forEach_attract_member[OF dist this, of width height rng 0 "store m"] obtain c' where
      r: "store (beforeUpdate width height rng (syncDrawing True m)) b
            = fst (attract width height rng c' (store m b))"
      unfolding st by blast
    show ?thesis
    proof (cases "sqrt ((width / 2 - vx (position (store m b))) * (width / 2 - vx (position (store m b)))
                 + (height / 2 - vy (position (store m b))) * (height / 2 - vy (position (store m b)))) < 1")
      case True
      from attract_near_centre[OF True] show ?thesis
        using True by (simp add: r Let_def)
    next
      case False
      note f = attract_away_from_centre[OF False, of rng c']
      show ?thesis
        apply (rule exI[of _ c'])
        using False by (simp add: r Let_def f)
    qed
  qed
  have e: "store (beforeUpdate width height rng (syncDrawing True m)) b = store m b"
    if "b \<notin> snd ` set (bodiesRef m)" for b
  proof -
    from that have "b \<notin> set (map snd (bodiesRef m))" by simp
    then show ?thesis unfolding st by (rule forEach_attract_other)
  qed
  from a b c d e show ?thesis by blast
qed

theorem force_regimes_witness:
  "engineRef sample_machine = Some \<lparr>gravity_y = 1, world_bodies = [0, 1, 2, 3, 4, 5, 6]\<rparr>
   \<and> distinct (map snd (bodiesRef sample_machine))
   \<and> beforeUpdate 600 500 (\<lambda>n. 1/2) (syncDrawing False sample_machine)
       = syncDrawing False sample_machine
   \<and> engineRef (beforeUpdate 600 500 (\<lambda>n. 1/2) (syncDrawing True sample_machine))
       = Some \<lparr>gravity_y = 0, world_bodies = [0, 1, 2, 3, 4, 5, 6]\<rparr>
   \<and> force (store (beforeUpdate 600 500 (\<lambda>n. 1/2) (syncDrawing True sample_machine)) 4)
       = \<lparr>vx = 0.288, vy = 0\<rparr>
   \<and> store (beforeUpdate 600 500 (\<lambda>n. 1/2) (syncDrawing True sample_machine)) 5
       = store sample_machine 5
   \<and> store (beforeUpdate 600 500 (\<lambda>n. 1/2) (syncDrawing True sample_machine)) 0
       = store sample_machine 0"
proof -
  have h1: "engineRef sample_machine = Some \<lparr>gravity_y = 1, world_bodies = [0, 1, 2, 3, 4, 5, 6]\<rparr>"
    by (simp add: sample_machine_def)
  have h2: "distinct (map snd (bodiesRef sample_machine))" by (simp add: sample_machine_def)
  have b: "bodiesRef sample_machine = [(1, 4), (2, 5), (3, 6)]" by (simp add: sample_machine_def)
  have s4: "store sample_machine 4 = ball 100 250" by (simp add: sample_machine_def)
  have s5: "store sample_machine 5 = ball 300 (501/2)" by (simp add: sample_machine_def)
  note t = force_regimes[OF h1, of 600 500 "\<lambda>n. 1/2"]
  show ?thesis
    using h1 h2 t unfolding b 
    by (simp add: Let_def s4 s5 ball_def)
qed

end
